theory Spec2Isabelle
  imports Main "HOL-Library.Word"
begin

section \<open>The word store of server.ts\<close>

text \<open>
  The server keeps two SQLite tables, \<^verbatim>\<open>words\<close> and \<^verbatim>\<open>progress\<close>, and serves three
  routes over them: \<^verbatim>\<open>GET /api/words\<close>, \<^verbatim>\<open>POST /api/words\<close> and \<^verbatim>\<open>GET /api/stats\<close>.
  Each route handler is a synchronous function that runs one or two SQL statements.

  The model is a state-passing one. A table is the list of its rows in the order of a
  table scan (ascending rowid); SQL \<^verbatim>\<open>NULL\<close> is \<open>None\<close>. A timestamp is the text
  \<^verbatim>\<open>YYYY-MM-DD HH:MM:SS\<close> that \<^verbatim>\<open>CURRENT_TIMESTAMP\<close> and \<^verbatim>\<open>datetime('now')\<close> produce; it
  is modelled by the number of seconds it denotes, which orders the same way as the text and
  has the same resolution of one second. The clock is read by a statement when it runs, so
  the reading is an argument of the statement. A statement fails only where the driver
  refuses its arguments or a constraint of the schema refuses the row; failures of the
  storage medium are not part of the model. The handlers are modelled from the point where
  they receive \<^verbatim>\<open>req.body\<close>: a request that the JSON middleware turns away (a body over
  its limit, malformed JSON) never reaches them.
\<close>

subsection \<open>Strings\<close>

text \<open>
  A JavaScript string is a sequence of UTF-16 code units. The text of a column is modelled
  by the JavaScript string that reading the column gives. Writing a string and reading it
  back keeps every code unit of a well-formed string; a surrogate without its partner is
  written as three bytes that are not UTF-8 and comes back as three U+FFFD.
\<close>

type_synonym jsstring = "16 word list"

definition is_high :: "16 word \<Rightarrow> bool" where
  "is_high u \<longleftrightarrow> 0xD800 \<le> u \<and> u \<le> 0xDBFF"

definition is_low :: "16 word \<Rightarrow> bool" where
  "is_low u \<longleftrightarrow> 0xDC00 \<le> u \<and> u \<le> 0xDFFF"

fun stored_text :: "jsstring \<Rightarrow> jsstring" where
  "stored_text [] = []"
| "stored_text [u] = (if is_high u \<or> is_low u then [0xFFFD, 0xFFFD, 0xFFFD] else [u])"
| "stored_text (u # v # us) =
     (if is_high u \<and> is_low v then u # v # stored_text us
      else if is_high u \<or> is_low u then [0xFFFD, 0xFFFD, 0xFFFD] @ stored_text (v # us)
      else u # stored_text (v # us))"

fun well_formed :: "jsstring \<Rightarrow> bool" where
  "well_formed [] = True"
| "well_formed [u] = (\<not> is_high u \<and> \<not> is_low u)"
| "well_formed (u # v # us) =
     (if is_high u \<and> is_low v then well_formed us
      else \<not> is_high u \<and> \<not> is_low u \<and> well_formed (v # us))"

text \<open>The code units of an ASCII literal.\<close>

definition ascii :: "string \<Rightarrow> jsstring" where
  "ascii s = map of_char s"

subsection \<open>Schema\<close>

type_synonym timestamp = nat

text \<open>
  \<^verbatim>\<open>CREATE TABLE words (id INTEGER PRIMARY KEY AUTOINCREMENT, word TEXT NOT NULL,
  context_sentence TEXT, meaning TEXT, phonetic_us TEXT, phonetic_uk TEXT, image_url TEXT,
  created_at DATETIME DEFAULT CURRENT_TIMESTAMP)\<close>.
  The only insert leaves \<^verbatim>\<open>created_at\<close> to its default, so the column always holds a
  timestamp.
\<close>

record word_row =
  w_id :: nat
  w_word :: jsstring
  w_context_sentence :: "jsstring option"
  w_meaning :: "jsstring option"
  w_phonetic_us :: "jsstring option"
  w_phonetic_uk :: "jsstring option"
  w_image_url :: "jsstring option"
  w_created_at :: timestamp

text \<open>
  \<^verbatim>\<open>CREATE TABLE progress (id INTEGER PRIMARY KEY AUTOINCREMENT, word_id INTEGER,
  status TEXT DEFAULT 'new', last_reviewed DATETIME, next_review DATETIME,
  FOREIGN KEY(word_id) REFERENCES words(id))\<close>. Only the literal of the schema is ever
  written to \<^verbatim>\<open>status\<close>.
\<close>

record progress_row =
  p_id :: nat
  p_word_id :: "nat option"
  p_status :: "string option"
  p_last_reviewed :: "timestamp option"
  p_next_review :: "timestamp option"

text \<open>
  The database: both tables and, for each, the counter that SQLite keeps in
  \<^verbatim>\<open>sqlite_sequence\<close> for an \<^verbatim>\<open>AUTOINCREMENT\<close> key (the largest rowid ever given out).
\<close>

record store =
  words :: "word_row list"
  progress :: "progress_row list"
  words_seq :: nat
  progress_seq :: nat

definition init_store :: store where
  "init_store = \<lparr>words = [], progress = [], words_seq = 0, progress_seq = 0\<rparr>"

text \<open>
  \<^verbatim>\<open>AUTOINCREMENT\<close>: the new rowid is one more than the largest rowid that the table
  holds or has ever held. Rowids are natural numbers here. SQLite's are 64-bit, and the
  driver hands \<^verbatim>\<open>lastInsertRowid\<close> to the handler as a JavaScript number, exact below
  \<open>2^53\<close>; a table filled one request at a time stays far below both bounds.
\<close>

definition next_rowid :: "nat \<Rightarrow> nat list \<Rightarrow> nat" where
  "next_rowid seq ids = Suc (fold max ids seq)"

subsection \<open>Requests\<close>

text \<open>
  A field of the parsed JSON body as the handler sees it after destructuring
  \<^verbatim>\<open>req.body\<close>: missing (\<^verbatim>\<open>undefined\<close>) or any JSON value. A number is given by the
  text that SQLite stores for its double in a column of type TEXT (\<^verbatim>\<open>123.0\<close> for
  \<^verbatim>\<open>123\<close>); the model does not compute that text.
\<close>

datatype jsval =
    Undefined
  | Null
  | Str jsstring
  | Num jsstring
  | Bool bool
  | Arr "jsval list"
  | Obj "(jsstring \<times> jsval) list"

record payload =
  word :: jsval
  context_sentence :: jsval
  meaning :: jsval
  phonetic_us :: jsval
  phonetic_uk :: jsval
  image_url :: jsval

text \<open>
  One \<^verbatim>\<open>POST /api/words\<close> request: its body and the two clock readings its two statements
  take, the first by the default of \<^verbatim>\<open>created_at\<close>, the second by \<^verbatim>\<open>datetime('now')\<close>.
\<close>

record call =
  body :: payload
  t_word :: timestamp
  t_progress :: timestamp

text \<open>
  What a statement can throw: the driver's refusal of the arguments of \<^verbatim>\<open>.run\<close>
  (a \<^verbatim>\<open>TypeError\<close> or a \<^verbatim>\<open>RangeError\<close>, one error here) and the two constraint
  failures of the schema.
\<close>

datatype error = DRIVER_BIND_ERROR | SQLITE_CONSTRAINT_NOTNULL | SQLITE_CONSTRAINT_FOREIGNKEY

datatype response =
    Words "word_row list"
  | Created nat
  | Stats nat
  | Error500 error

subsection \<open>Binding the parameters of a statement\<close>

text \<open>
  One value bound to one parameter: \<^verbatim>\<open>undefined\<close> and \<^verbatim>\<open>null\<close> bind as \<^verbatim>\<open>NULL\<close>, a
  string as text, a number as a double, which a column of type TEXT stores as text. A
  boolean, an array or an object in the place of a value is refused.
\<close>

fun bind_value :: "jsval \<Rightarrow> error + jsstring option" where
  "bind_value Undefined = Inr None"
| "bind_value Null = Inr None"
| "bind_value (Str s) = Inr (Some (stored_text s))"
| "bind_value (Num t) = Inr (Some t)"
| "bind_value (Bool b) = Inl DRIVER_BIND_ERROR"
| "bind_value (Arr xs) = Inl DRIVER_BIND_ERROR"
| "bind_value (Obj fs) = Inl DRIVER_BIND_ERROR"

fun bind_values :: "jsval list \<Rightarrow> error + jsstring option list" where
  "bind_values [] = Inr []"
| "bind_values (x # xs) =
     (case bind_value x of
        Inl e \<Rightarrow> Inl e
      | Inr v \<Rightarrow> (case bind_values xs of Inl e \<Rightarrow> Inl e | Inr vs \<Rightarrow> Inr (v # vs)))"

text \<open>
  One argument of \<^verbatim>\<open>.run\<close>: an array stands for its elements, each bound to the next
  parameter; a plain object carries named parameters, of which the statements here have
  none; anything else is one value.
\<close>

fun bind_arg :: "jsval \<Rightarrow> error + jsstring option list" where
  "bind_arg (Arr xs) = bind_values xs"
| "bind_arg (Obj fs) = Inr []"
| "bind_arg v = (case bind_value v of Inl e \<Rightarrow> Inl e | Inr x \<Rightarrow> Inr [x])"

fun bind_args :: "jsval list \<Rightarrow> error + jsstring option list" where
  "bind_args [] = Inr []"
| "bind_args (a # as) =
     (case bind_arg a of
        Inl e \<Rightarrow> Inl e
      | Inr vs \<Rightarrow> (case bind_args as of Inl e \<Rightarrow> Inl e | Inr ws \<Rightarrow> Inr (vs @ ws)))"

fun is_object :: "jsval \<Rightarrow> bool" where
  "is_object (Obj fs) = True"
| "is_object v = False"

text \<open>
  \<^verbatim>\<open>.run(word, context_sentence, meaning, phonetic_us, phonetic_uk, image_url)\<close> on the
  statement with six parameters: the arguments are bound in order, a second object among
  them is refused, and so is any number of values other than six.
\<close>

record bound =
  b_word :: "jsstring option"
  b_context_sentence :: "jsstring option"
  b_meaning :: "jsstring option"
  b_phonetic_us :: "jsstring option"
  b_phonetic_uk :: "jsstring option"
  b_image_url :: "jsstring option"

definition bind_params :: "payload \<Rightarrow> error + bound" where
  "bind_params p =
     (let args = [word p, context_sentence p, meaning p, phonetic_us p, phonetic_uk p, image_url p]
      in if 1 < length (filter is_object args) then Inl DRIVER_BIND_ERROR
         else
           (case bind_args args of
              Inl e \<Rightarrow> Inl e
            | Inr vs \<Rightarrow>
                (case vs of
                   [a, b, c, d, e, f] \<Rightarrow>
                     Inr \<lparr>b_word = a, b_context_sentence = b, b_meaning = c,
                          b_phonetic_us = d, b_phonetic_uk = e, b_image_url = f\<rparr>
                 | _ \<Rightarrow> Inl DRIVER_BIND_ERROR)))"

subsection \<open>Statements\<close>

text \<open>
  \<^verbatim>\<open>INSERT INTO words (word, context_sentence, meaning, phonetic_us, phonetic_uk, image_url)
  VALUES (?, ?, ?, ?, ?, ?)\<close>; the result is \<^verbatim>\<open>info.lastInsertRowid\<close>.
\<close>

definition row_of :: "nat \<Rightarrow> jsstring \<Rightarrow> bound \<Rightarrow> timestamp \<Rightarrow> word_row" where
  "row_of rid w b now =
     \<lparr>w_id = rid, w_word = w,
      w_context_sentence = b_context_sentence b,
      w_meaning = b_meaning b,
      w_phonetic_us = b_phonetic_us b,
      w_phonetic_uk = b_phonetic_uk b,
      w_image_url = b_image_url b,
      w_created_at = now\<rparr>"

definition insert_word :: "timestamp \<Rightarrow> payload \<Rightarrow> store \<Rightarrow> error + (nat \<times> store)" where
  "insert_word now p st =
     (case bind_params p of
        Inl e \<Rightarrow> Inl e
      | Inr b \<Rightarrow>
          (case b_word b of
             None \<Rightarrow> Inl SQLITE_CONSTRAINT_NOTNULL
           | Some w \<Rightarrow>
               let rid = next_rowid (words_seq st) (map w_id (words st))
               in Inr (rid, st\<lparr>words := words st @ [row_of rid w b now], words_seq := rid\<rparr>)))"

text \<open>
  \<^verbatim>\<open>INSERT INTO progress (word_id, next_review) VALUES (?, datetime('now'))\<close>. The foreign
  key refuses a \<^verbatim>\<open>word_id\<close> that no row of \<^verbatim>\<open>words\<close> carries. The columns
  \<^verbatim>\<open>status\<close> and \<^verbatim>\<open>last_reviewed\<close> are not named by the insert and take their defaults,
  \<^verbatim>\<open>'new'\<close> and \<^verbatim>\<open>NULL\<close>.
\<close>

definition new_progress_row :: "nat \<Rightarrow> nat \<Rightarrow> timestamp \<Rightarrow> progress_row" where
  "new_progress_row rid wid now =
     \<lparr>p_id = rid, p_word_id = Some wid, p_status = Some ''new'',
      p_last_reviewed = None, p_next_review = Some now\<rparr>"

definition insert_progress :: "timestamp \<Rightarrow> nat \<Rightarrow> store \<Rightarrow> error + store" where
  "insert_progress now wid st =
     (if wid \<notin> set (map w_id (words st)) then Inl SQLITE_CONSTRAINT_FOREIGNKEY
      else
        let rid = next_rowid (progress_seq st) (map p_id (progress st))
        in Inr (st\<lparr>progress := progress st @ [new_progress_row rid wid now],
                   progress_seq := rid\<rparr>))"

text \<open>
  \<^verbatim>\<open>SELECT * FROM words ORDER BY created_at DESC\<close>: the rows of the scan, sorted by
  descending timestamp. The query names no second sort key; SQLite's sorter is a stable
  merge sort, so rows with equal timestamps stay in scan order.
\<close>

definition list_words :: "store \<Rightarrow> word_row list" where
  "list_words st = sort_key (\<lambda>r. - int (w_created_at r)) (words st)"

text \<open>\<^verbatim>\<open>SELECT COUNT(*) as count FROM words\<close>.\<close>

definition count_words :: "store \<Rightarrow> nat" where
  "count_words st = length (words st)"

subsection \<open>Route handlers\<close>

text \<open>\<^verbatim>\<open>app.get("/api/words", ...)\<close>\<close>

definition get_words :: "store \<Rightarrow> response \<times> store" where
  "get_words st = (Words (list_words st), st)"

text \<open>
  \<^verbatim>\<open>app.post("/api/words", ...)\<close>: the two inserts run one after the other with no
  transaction around them; a statement that throws ends the handler with what has been
  written so far.
\<close>

definition post_words :: "call \<Rightarrow> store \<Rightarrow> response \<times> store" where
  "post_words c st =
     (case insert_word (t_word c) (body c) st of
        Inl e \<Rightarrow> (Error500 e, st)
      | Inr (rid, st1) \<Rightarrow>
          (case insert_progress (t_progress c) rid st1 of
             Inl e \<Rightarrow> (Error500 e, st1)
           | Inr st2 \<Rightarrow> (Created rid, st2)))"

text \<open>\<^verbatim>\<open>app.get("/api/stats", ...)\<close>\<close>

definition get_stats :: "store \<Rightarrow> response \<times> store" where
  "get_stats st = (Stats (count_words st), st)"

subsection \<open>Sequences of requests\<close>

fun run :: "call list \<Rightarrow> store \<Rightarrow> store" where
  "run [] st = st"
| "run (c # cs) st = run cs (snd (post_words c st))"

fun responses :: "call list \<Rightarrow> store \<Rightarrow> response list" where
  "responses [] st = []"
| "responses (c # cs) st = fst (post_words c st) # responses cs (snd (post_words c st))"

fun created_id :: "response \<Rightarrow> nat option" where
  "created_id (Created n) = Some n"
| "created_id _ = None"

definition created_ids :: "call list \<Rightarrow> store \<Rightarrow> nat list" where
  "created_ids cs st = List.map_filter created_id (responses cs st)"

subsection \<open>The client's save\<close>

text \<open>
  The interface \<^verbatim>\<open>WordRecord extends WordAnalysis\<close> of the client, and the body that
  \<^verbatim>\<open>saveWord\<close> posts. \<^verbatim>\<open>JSON.stringify\<close> leaves out a key whose value is
  \<^verbatim>\<open>undefined\<close>, so an optional field that is not set reaches the handler as missing.
\<close>

record WordRecord =
  wr_word :: jsstring
  wr_meaning :: jsstring
  wr_context_explanation :: jsstring
  wr_phonetic_us :: jsstring
  wr_phonetic_uk :: jsstring
  wr_image_prompt :: jsstring
  wr_id :: "nat option"
  wr_image_url :: "jsstring option"
  wr_created_at :: "jsstring option"

definition saveWord_body :: "WordRecord \<Rightarrow> payload" where
  "saveWord_body wr =
     \<lparr>word = Str (wr_word wr),
      context_sentence = Str (wr_context_explanation wr),
      meaning = Str (wr_meaning wr),
      phonetic_us = Str (wr_phonetic_us wr),
      phonetic_uk = Str (wr_phonetic_uk wr),
      image_url = (case wr_image_url wr of None \<Rightarrow> Undefined | Some u \<Rightarrow> Str u)\<rparr>"

subsection \<open>Requests that overlap\<close>

text \<open>
  A \<^verbatim>\<open>POST /api/words\<close> handler in flight: before its first statement, between its two
  statements (holding \<^verbatim>\<open>info.lastInsertRowid\<close>), or done with its response. SQLite runs
  one statement at a time, so two requests that overlap interleave whole statements; a
  schedule says whose statement runs next.
\<close>

datatype handler = Start call | Inserted call nat | Finished response

fun step_handler :: "handler \<Rightarrow> store \<Rightarrow> handler \<times> store" where
  "step_handler (Start c) st =
     (case insert_word (t_word c) (body c) st of
        Inl e \<Rightarrow> (Finished (Error500 e), st)
      | Inr (rid, st1) \<Rightarrow> (Inserted c rid, st1))"
| "step_handler (Inserted c rid) st =
     (case insert_progress (t_progress c) rid st of
        Inl e \<Rightarrow> (Finished (Error500 e), st)
      | Inr st2 \<Rightarrow> (Finished (Created rid), st2))"
| "step_handler (Finished r) st = (Finished r, st)"

datatype turn = A | B

fun race :: "turn list \<Rightarrow> handler \<times> handler \<times> store \<Rightarrow> handler \<times> handler \<times> store" where
  "race [] cfg = cfg"
| "race (A # ts) (h1, h2, st) = race ts (fst (step_handler h1 st), h2, snd (step_handler h1 st))"
| "race (B # ts) (h1, h2, st) = race ts (h1, fst (step_handler h2 st), snd (step_handler h2 st))"

text \<open>How far a handler has come, and the rowid it holds once its first insert is done.\<close>

fun stage :: "handler \<Rightarrow> nat" where
  "stage (Start c) = 0"
| "stage (Inserted c i) = 1"
| "stage (Finished r) = 2"

fun rowid_of :: "handler \<Rightarrow> nat option" where
  "rowid_of (Start c) = None"
| "rowid_of (Inserted c i) = Some i"
| "rowid_of (Finished r) = created_id r"

subsection \<open>Auxiliary notions for the properties\<close>

text \<open>
  Plain values, each of which the driver binds to one parameter, and what such a value
  leaves in its column. A payload is plain when its six fields are.
\<close>

fun scalar :: "jsval \<Rightarrow> bool" where
  "scalar Undefined = True"
| "scalar Null = True"
| "scalar (Str s) = True"
| "scalar (Num t) = True"
| "scalar v = False"

fun column :: "jsval \<Rightarrow> jsstring option" where
  "column (Str s) = Some (stored_text s)"
| "column (Num t) = Some t"
| "column v = None"

definition plain :: "payload \<Rightarrow> bool" where
  "plain p \<longleftrightarrow>
     scalar (word p) \<and> scalar (context_sentence p) \<and> scalar (meaning p)
     \<and> scalar (phonetic_us p) \<and> scalar (phonetic_uk p) \<and> scalar (image_url p)"

text \<open>The row that a plain payload with surface text \<open>w\<close> leaves in \<^verbatim>\<open>words\<close>.\<close>

definition new_word_row :: "nat \<Rightarrow> jsstring \<Rightarrow> payload \<Rightarrow> timestamp \<Rightarrow> word_row" where
  "new_word_row rid w p now =
     \<lparr>w_id = rid, w_word = stored_text w,
      w_context_sentence = column (context_sentence p),
      w_meaning = column (meaning p),
      w_phonetic_us = column (phonetic_us p),
      w_phonetic_uk = column (phonetic_uk p),
      w_image_url = column (image_url p),
      w_created_at = now\<rparr>"

text \<open>
  A value that is a well-formed text, or absent or \<^verbatim>\<open>null\<close>, and the text it carries.
\<close>

fun textual :: "jsval \<Rightarrow> bool" where
  "textual Undefined = True"
| "textual Null = True"
| "textual (Str s) = well_formed s"
| "textual v = False"

fun sent :: "jsval \<Rightarrow> jsstring option" where
  "sent (Str s) = Some s"
| "sent v = None"

text \<open>
  Whether the first insert takes a payload (this does not depend on the store), and the
  requests of a sequence that are taken.
\<close>

definition accepts :: "payload \<Rightarrow> bool" where
  "accepts p = (case bind_params p of Inl e \<Rightarrow> False | Inr b \<Rightarrow> b_word b \<noteq> None)"

definition accepted :: "call list \<Rightarrow> call list" where
  "accepted cs = filter (\<lambda>c. accepts (body c)) cs"

text \<open>
  A handler serving request \<open>c\<close> with surface text \<open>w\<close> is on track in a store: it has not
  failed, and once it holds a rowid the row it inserted is in the table.
\<close>

definition on_track :: "call \<Rightarrow> jsstring \<Rightarrow> handler \<Rightarrow> store \<Rightarrow> bool" where
  "on_track c w h st \<longleftrightarrow>
     (case h of
        Start c' \<Rightarrow> c' = c
      | Inserted c' i \<Rightarrow> c' = c \<and> new_word_row i w (body c) (t_word c) \<in> set (words st)
      | Finished r \<Rightarrow>
          (case created_id r of
             None \<Rightarrow> False
           | Some i \<Rightarrow> r = Created i \<and> new_word_row i w (body c) (t_word c) \<in> set (words st)))"

text \<open>The rows of \<^verbatim>\<open>progress\<close> that reference a given word.\<close>

definition progress_of :: "store \<Rightarrow> nat \<Rightarrow> progress_row list" where
  "progress_of st wid = filter (\<lambda>p. p_word_id p = Some wid) (progress st)"

text \<open>Sample requests.\<close>

definition request :: "payload \<Rightarrow> timestamp \<Rightarrow> timestamp \<Rightarrow> call" where
  "request p t1 t2 = \<lparr>body = p, t_word = t1, t_progress = t2\<rparr>"

definition just_word :: "jsval \<Rightarrow> payload" where
  "just_word v =
     \<lparr>word = v, context_sentence = Undefined, meaning = Undefined,
      phonetic_us = Undefined, phonetic_uk = Undefined, image_url = Undefined\<rparr>"

definition ubiquitous :: payload where
  "ubiquitous =
     \<lparr>word = Str (ascii ''ubiquitous''), context_sentence = Undefined,
      meaning = Str (ascii ''present everywhere''), phonetic_us = Str (ascii ''/ju:bIkwIt@s/''),
      phonetic_uk = Undefined, image_url = Undefined\<rparr>"

section \<open>Properties\<close>

subsection \<open>Basic facts about the statements\<close>

lemma fold_max_ge: "(seq::nat) \<le> fold max ids seq"
  by (induction ids arbitrary: seq) (auto intro: order_trans [OF max.cobounded2])

lemma fold_max_mem: "(i::nat) \<in> set ids \<Longrightarrow> i \<le> fold max ids seq"
proof (induction ids arbitrary: seq)
  case Nil
  then show ?case by simp
next
  case (Cons a ids)
  show ?case
  proof (cases "i = a")
    case True
    have "a \<le> max a seq" by simp
    also have "\<dots> \<le> fold max ids (max a seq)" by (rule fold_max_ge)
    finally show ?thesis using True by simp
  next
    case False
    with Cons show ?thesis by simp
  qed
qed

lemma next_rowid_gt_seq: "seq < next_rowid seq ids"
  by (simp add: next_rowid_def fold_max_ge less_Suc_eq_le)

lemma next_rowid_gt_mem: "i \<in> set ids \<Longrightarrow> i < next_rowid seq ids"
  by (simp add: next_rowid_def fold_max_mem less_Suc_eq_le)

lemma stored_text_well_formed: "well_formed s \<Longrightarrow> stored_text s = s"
  by (induction s rule: stored_text.induct) (auto split: if_splits)

lemma scalar_bind_arg: "scalar v \<Longrightarrow> bind_arg v = Inr [column v]"
  by (cases v) simp_all

lemma scalar_not_object: "scalar v \<Longrightarrow> \<not> is_object v"
  by (cases v) simp_all

lemma textual_scalar: "textual v \<Longrightarrow> scalar v"
  by (cases v) simp_all

lemma textual_column: "textual v \<Longrightarrow> column v = sent v"
  by (cases v) (simp_all add: stored_text_well_formed)

lemma bind_params_plain:
  assumes "plain p"
  shows "bind_params p =
     Inr \<lparr>b_word = column (word p), b_context_sentence = column (context_sentence p),
          b_meaning = column (meaning p), b_phonetic_us = column (phonetic_us p),
          b_phonetic_uk = column (phonetic_uk p), b_image_url = column (image_url p)\<rparr>"
  using assms
  by (simp add: plain_def bind_params_def scalar_bind_arg scalar_not_object)

lemma w_id_row_of [simp]: "w_id (row_of rid w b now) = rid"
  by (simp add: row_of_def)

lemma w_created_at_row_of [simp]: "w_created_at (row_of rid w b now) = now"
  by (simp add: row_of_def)

lemma w_id_new_word_row [simp]: "w_id (new_word_row rid w p now) = rid"
  by (simp add: new_word_row_def)

lemma w_created_at_new_word_row [simp]: "w_created_at (new_word_row rid w p now) = now"
  by (simp add: new_word_row_def)

lemma insert_word_plain:
  assumes "word p = Str w" and "plain p"
  shows "insert_word now p st =
     Inr (next_rowid (words_seq st) (map w_id (words st)),
          st\<lparr>words := words st @ [new_word_row (next_rowid (words_seq st) (map w_id (words st))) w p now],
             words_seq := next_rowid (words_seq st) (map w_id (words st))\<rparr>)"
  using assms
  by (simp add: insert_word_def bind_params_plain row_of_def new_word_row_def Let_def)

lemma accepts_plain: "word p = Str w \<Longrightarrow> plain p \<Longrightarrow> accepts p"
  by (simp add: accepts_def bind_params_plain)

lemma insert_word_cases:
  obtains (refused) e where "\<not> accepts p" "insert_word now p st = Inl e"
  | (inserted) row where "accepts p"
      "w_id row = next_rowid (words_seq st) (map w_id (words st))" "w_created_at row = now"
      "insert_word now p st =
         Inr (next_rowid (words_seq st) (map w_id (words st)),
              st\<lparr>words := words st @ [row],
                 words_seq := next_rowid (words_seq st) (map w_id (words st))\<rparr>)"
proof (cases "bind_params p")
  case (Inl e)
  then show ?thesis using refused [of e] by (simp add: accepts_def insert_word_def)
next
  case (Inr b)
  show ?thesis
  proof (cases "b_word b")
    case None
    with Inr show ?thesis
      using refused [of SQLITE_CONSTRAINT_NOTNULL] by (simp add: accepts_def insert_word_def)
  next
    case (Some w)
    with Inr show ?thesis
      using inserted [of "row_of (next_rowid (words_seq st) (map w_id (words st))) w b now"]
      by (simp add: accepts_def insert_word_def Let_def)
  qed
qed

lemma post_words_accept:
  assumes "word (body c) = Str w" and "plain (body c)"
  shows "post_words c st =
     (let rid = next_rowid (words_seq st) (map w_id (words st));
          pid = next_rowid (progress_seq st) (map p_id (progress st))
      in (Created rid,
          st\<lparr>words := words st @ [new_word_row rid w (body c) (t_word c)],
             words_seq := rid,
             progress := progress st @ [new_progress_row pid rid (t_progress c)],
             progress_seq := pid\<rparr>))"
  by (simp add: post_words_def insert_word_plain [OF assms] insert_progress_def Let_def)

lemma post_words_cases:
  obtains (reject) e where "\<not> accepts (body c)" "post_words c st = (Error500 e, st)"
  | (accept) row where "accepts (body c)"
      "w_id row = next_rowid (words_seq st) (map w_id (words st))"
      "w_created_at row = t_word c"
      "post_words c st =
        (Created (next_rowid (words_seq st) (map w_id (words st))),
         st\<lparr>words := words st @ [row],
            words_seq := next_rowid (words_seq st) (map w_id (words st)),
            progress := progress st @ [new_progress_row (next_rowid (progress_seq st) (map p_id (progress st)))
                (next_rowid (words_seq st) (map w_id (words st))) (t_progress c)],
            progress_seq := next_rowid (progress_seq st) (map p_id (progress st))\<rparr>)"
proof (cases "t_word c" "body c" st rule: insert_word_cases)
  case (refused e)
  then show ?thesis using reject [of e] by (simp add: post_words_def)
next
  case (inserted row)
  then show ?thesis using accept [of row]
    by (simp add: post_words_def insert_progress_def Let_def)
qed

lemma post_words_reject_store:
  "\<not> accepts (body c) \<Longrightarrow> \<exists>e. post_words c st = (Error500 e, st)"
  by (cases c st rule: post_words_cases) simp_all

lemma sort_key_snoc_least:
  fixes k :: "'a \<Rightarrow> int"
  assumes "\<forall>x\<in>set xs. k y < k x"
  shows "sort_key k (xs @ [y]) = y # sort_key k xs"
  using assms by (induction xs) auto

lemma filter_list_words:
  "filter P (list_words st) = sort_key (\<lambda>r. - int (w_created_at r)) (filter P (words st))"
  by (simp add: list_words_def filter_sort)

lemma filter_id_fresh:
  "filter (\<lambda>r. w_id r = next_rowid seq (map w_id rs)) rs = []"
proof -
  have "\<forall>r\<in>set rs. w_id r \<noteq> next_rowid seq (map w_id rs)"
    using next_rowid_gt_mem [of _ "map w_id rs" seq] by fastforce
  then show ?thesis by (simp add: filter_empty_conv)
qed

lemma null_word_not_accepted:
  assumes "word p = Null \<or> word p = Undefined"
  shows "\<not> accepts p"
proof -
  have "bind_arg (word p) = Inr [None]" using assms by auto
  then show ?thesis
    by (auto simp: accepts_def bind_params_def Let_def split: sum.splits list.splits)
qed

lemma bind_value_error: "bind_value v = Inl e \<Longrightarrow> e = DRIVER_BIND_ERROR"
  by (cases v) simp_all

lemma bind_values_error: "bind_values xs = Inl e \<Longrightarrow> e = DRIVER_BIND_ERROR"
  by (induction xs) (auto split: sum.splits dest: bind_value_error)

lemma bind_arg_error: "bind_arg v = Inl e \<Longrightarrow> e = DRIVER_BIND_ERROR"
  by (cases v) (auto dest: bind_values_error)

lemma bind_args_error: "bind_args vs = Inl e \<Longrightarrow> e = DRIVER_BIND_ERROR"
  by (induction vs) (auto split: sum.splits dest: bind_arg_error)

lemma bind_params_error: "bind_params p = Inl e \<Longrightarrow> e = DRIVER_BIND_ERROR"
  unfolding bind_params_def Let_def
  by (auto simp del: bind_args.simps split: if_splits sum.splits list.splits
      dest: bind_args_error)

lemma insert_word_error_kinds:
  "insert_word now p st = Inl e \<Longrightarrow> e = SQLITE_CONSTRAINT_NOTNULL \<or> e = DRIVER_BIND_ERROR"
  by (auto simp: insert_word_def Let_def split: sum.splits option.splits
      dest: bind_params_error)

subsection \<open>Facts about sequences of requests\<close>

lemma created_ids_Nil [simp]: "created_ids [] st = []"
  by (simp add: created_ids_def map_filter_simps)

lemma created_ids_Cons:
  "created_ids (c # cs) st =
     (case created_id (fst (post_words c st)) of
        None \<Rightarrow> created_ids cs (snd (post_words c st))
      | Some i \<Rightarrow> i # created_ids cs (snd (post_words c st)))"
  by (simp add: created_ids_def map_filter_simps split: option.split)

lemma ids_after_run:
  "map w_id (words (run cs st)) = map w_id (words st) @ created_ids cs st"
proof (induction cs arbitrary: st)
  case Nil
  show ?case by simp
next
  case (Cons c cs)
  show ?case
    by (cases c st rule: post_words_cases) (simp_all add: Cons.IH created_ids_Cons)
qed

lemma words_kept_by_run:
  "take (length (words st)) (words (run cs st)) = words st"
proof (induction cs arbitrary: st)
  case Nil
  show ?case by simp
next
  case (Cons c cs)
  let ?st1 = "snd (post_words c st)"
  obtain ys where ys: "words ?st1 = words st @ ys"
    by (cases c st rule: post_words_cases) simp_all
  have le: "length (words st) \<le> length (words ?st1)"
    by (simp add: ys)
  have "take (length (words st)) (words (run (c # cs) st))
      = take (length (words st)) (take (length (words ?st1)) (words (run cs ?st1)))"
    using le by (simp add: min_absorb1)
  also have "\<dots> = take (length (words st)) (words ?st1)"
    by (simp only: Cons.IH)
  also have "\<dots> = words st"
    by (simp add: ys)
  finally show ?case .
qed

lemma created_ids_bounds:
  "i \<in> set (created_ids cs st) \<Longrightarrow> words_seq st < i \<and> (\<forall>r\<in>set (words st). w_id r < i)"
proof (induction cs arbitrary: st)
  case Nil
  then show ?case by simp
next
  case (Cons c cs)
  show ?case
  proof (cases c st rule: post_words_cases)
    case (reject e)
    with Cons show ?thesis by (simp add: created_ids_Cons)
  next
    case (accept row)
    let ?rid = "next_rowid (words_seq st) (map w_id (words st))"
    have now: "words_seq st < ?rid \<and> (\<forall>r\<in>set (words st). w_id r < ?rid)"
      by (simp add: next_rowid_gt_seq next_rowid_gt_mem)
    from Cons.prems accept have "i = ?rid \<or> i \<in> set (created_ids cs (snd (post_words c st)))"
      by (simp add: created_ids_Cons)
    then show ?thesis
    proof
      assume "i = ?rid"
      with now show ?thesis by simp
    next
      assume "i \<in> set (created_ids cs (snd (post_words c st)))"
      from Cons.IH [OF this] accept have "?rid < i" by simp
      with now show ?thesis by fastforce
    qed
  qed
qed

lemma created_ids_sorted: "sorted_wrt (<) (created_ids cs st)"
proof (induction cs arbitrary: st)
  case Nil
  show ?case by simp
next
  case (Cons c cs)
  show ?case
  proof (cases c st rule: post_words_cases)
    case (reject e)
    then show ?thesis by (simp add: created_ids_Cons Cons.IH)
  next
    case (accept row)
    have "\<forall>i\<in>set (created_ids cs (snd (post_words c st))). words_seq (snd (post_words c st)) < i"
      using created_ids_bounds by blast
    with accept show ?thesis by (simp add: created_ids_Cons Cons.IH)
  qed
qed

lemma created_ids_all_accepted:
  "\<forall>c\<in>set cs. accepts (body c) \<Longrightarrow> length (created_ids cs st) = length cs"
proof (induction cs arbitrary: st)
  case Nil
  show ?case by simp
next
  case (Cons c cs)
  then have "accepts (body c)" by simp
  then have "created_id (fst (post_words c st)) = Some (next_rowid (words_seq st) (map w_id (words st)))"
    by (cases c st rule: post_words_cases) simp_all
  with Cons show ?case by (simp add: created_ids_Cons)
qed

subsection \<open>Words and progress are written in step\<close>

lemma run_snoc: "run (cs @ [c]) st = snd (post_words c (run cs st))"
  by (induction cs arbitrary: st) simp_all

lemma fold_max_bounded: "\<forall>i\<in>set ids. i \<le> seq \<Longrightarrow> fold max ids (seq::nat) = seq"
  by (induction ids) (simp_all add: max_absorb2)

lemma next_rowid_enumerate:
  "next_rowid (length xs) (map fst (enumerate (Suc 0) xs)) = Suc (length xs)"
proof -
  have "\<forall>i\<in>set (map fst (enumerate (Suc 0) xs)). i \<le> length xs"
    by (auto simp: in_set_enumerate_eq)
  then show ?thesis by (simp only: next_rowid_def fold_max_bounded)
qed

lemma accepted_snoc:
  "accepted (cs @ [c]) = accepted cs @ (if accepts (body c) then [c] else [])"
  by (simp add: accepted_def)

lemma enumerate_snoc: "enumerate (Suc 0) (xs @ [x]) = enumerate (Suc 0) xs @ [(Suc (length xs), x)]"
  by (simp add: enumerate_append_eq)

lemma p_id_enumerate:
  "map p_id (map (\<lambda>(k, c). new_progress_row k k (t_progress c)) (enumerate (Suc 0) xs))
     = map fst (enumerate (Suc 0) xs)"
  by (simp add: new_progress_row_def case_prod_beta comp_def del: map_fst_enumerate)

lemma lockstep:
  "map w_id (words (run cs init_store)) = map fst (enumerate (Suc 0) (accepted cs))
   \<and> map w_created_at (words (run cs init_store)) = map t_word (accepted cs)
   \<and> progress (run cs init_store)
       = map (\<lambda>(k, c). new_progress_row k k (t_progress c)) (enumerate (Suc 0) (accepted cs))
   \<and> words_seq (run cs init_store) = length (accepted cs)
   \<and> progress_seq (run cs init_store) = length (accepted cs)"
proof (induction cs rule: rev_induct)
  case Nil
  show ?case by (simp add: init_store_def accepted_def del: map_fst_enumerate)
next
  case (snoc c cs)
  let ?st = "run cs init_store"
  let ?n = "length (accepted cs)"
  from snoc have ids: "map w_id (words ?st) = map fst (enumerate (Suc 0) (accepted cs))"
    and times: "map w_created_at (words ?st) = map t_word (accepted cs)"
    and prog: "progress ?st
       = map (\<lambda>(k, c). new_progress_row k k (t_progress c)) (enumerate (Suc 0) (accepted cs))"
    and wseq: "words_seq ?st = ?n" and pseq: "progress_seq ?st = ?n"
    by blast+
  show ?case
  proof (cases c ?st rule: post_words_cases)
    case (reject e)
    with snoc show ?thesis by (simp add: run_snoc accepted_snoc del: map_fst_enumerate)
  next
    case (accept row)
    have rid: "next_rowid (words_seq ?st) (map w_id (words ?st)) = Suc ?n"
      by (simp only: wseq ids next_rowid_enumerate)
    have pid: "next_rowid (progress_seq ?st) (map p_id (progress ?st)) = Suc ?n"
      by (simp only: pseq prog p_id_enumerate next_rowid_enumerate)
    have acc: "accepted (cs @ [c]) = accepted cs @ [c]"
      using accept(1) by (simp add: accepted_snoc)
    have st': "run (cs @ [c]) init_store
        = ?st\<lparr>words := words ?st @ [row], words_seq := Suc ?n,
               progress := progress ?st @ [new_progress_row (Suc ?n) (Suc ?n) (t_progress c)],
               progress_seq := Suc ?n\<rparr>"
      using accept(4) by (simp add: run_snoc rid pid)
    have row: "w_id row = Suc ?n" "w_created_at row = t_word c"
      using accept(2,3) rid by simp_all
    show ?thesis
      unfolding st' acc enumerate_snoc
      using ids times prog row by (simp del: map_fst_enumerate)
  qed
qed

lemma filter_progress_enumerate:
  "k < length acc \<Longrightarrow>
     filter (\<lambda>p. p_word_id p = Some (Suc k))
       (map (\<lambda>(j, c). new_progress_row j j (t_progress c)) (enumerate (Suc 0) acc))
     = [new_progress_row (Suc k) (Suc k) (t_progress (acc ! k))]"
proof (induction acc rule: rev_induct)
  case Nil
  then show ?case by simp
next
  case (snoc x xs)
  let ?f = "\<lambda>(j, c). new_progress_row j j (t_progress c)"
  let ?old = "map ?f (enumerate (Suc 0) xs)"
  have split: "map ?f (enumerate (Suc 0) (xs @ [x]))
      = ?old @ [new_progress_row (Suc (length xs)) (Suc (length xs)) (t_progress x)]"
    by (simp only: enumerate_snoc) simp
  show ?case
  proof (cases "k < length xs")
    case True
    with snoc.IH show ?thesis
      by (simp only: split filter_append) (simp add: new_progress_row_def nth_append)
  next
    case False
    with snoc.prems have k: "k = length xs" by simp
    have "\<forall>p\<in>set ?old. p_word_id p \<noteq> Some (Suc k)"
    proof
      fix p assume "p \<in> set ?old"
      then obtain j c where "(j, c) \<in> set (enumerate (Suc 0) xs)"
        and p: "p = new_progress_row j j (t_progress c)" by auto
      then have "j < Suc (length xs)" by (simp add: in_set_enumerate_eq)
      with k p show "p_word_id p \<noteq> Some (Suc k)" by (simp add: new_progress_row_def)
    qed
    then have "filter (\<lambda>p. p_word_id p = Some (Suc k)) ?old = []"
      by (simp add: filter_empty_conv)
    then show ?thesis
      by (simp only: split filter_append) (simp add: k new_progress_row_def)
  qed
qed

subsection \<open>Facts about overlapping requests\<close>

text \<open>
  Two steps of one handler are the handler of the sequential model, and the schedule that
  lets the first request finish before the second starts is the sequential run.
\<close>

lemma step_handler_twice:
  "step_handler (fst (step_handler (Start c) st)) (snd (step_handler (Start c) st))
     = (Finished (fst (post_words c st)), snd (post_words c st))"
  by (auto simp: post_words_def split: sum.splits prod.splits)

lemma race_serial:
  "race [A, A, B, B] (Start c1, Start c2, st)
     = (Finished (fst (post_words c1 st)),
        Finished (fst (post_words c2 (snd (post_words c1 st)))),
        snd (post_words c2 (snd (post_words c1 st))))"
  by (simp only: race.simps step_handler_twice fst_conv snd_conv)

lemma on_track_rowid:
  "on_track c w h st \<Longrightarrow> rowid_of h = Some i \<Longrightarrow> new_word_row i w (body c) (t_word c) \<in> set (words st)"
  by (cases h) (auto simp: on_track_def split: option.splits)

lemma on_track_more_rows:
  "on_track c w h st \<Longrightarrow> set (words st) \<subseteq> set (words st') \<Longrightarrow> on_track c w h st'"
  by (cases h) (auto simp: on_track_def split: option.splits)

lemma on_track_finished:
  "on_track c w h st \<Longrightarrow> stage h = 2 \<Longrightarrow>
     \<exists>i. h = Finished (Created i) \<and> new_word_row i w (body c) (t_word c) \<in> set (words st)"
  by (cases h) (auto simp: on_track_def split: option.splits)

lemma step_on_track:
  assumes "on_track c w h st" and "word (body c) = Str w" and "plain (body c)"
  shows "on_track c w (fst (step_handler h st)) (snd (step_handler h st))
       \<and> set (words st) \<subseteq> set (words (snd (step_handler h st)))
       \<and> stage (fst (step_handler h st)) = min 2 (Suc (stage h))
       \<and> (rowid_of (fst (step_handler h st)) = rowid_of h
           \<or> (\<exists>k. rowid_of (fst (step_handler h st)) = Some k \<and> (\<forall>r\<in>set (words st). w_id r \<noteq> k)))"
proof (cases h)
  case (Start c')
  with assms have [simp]: "c' = c" by (simp add: on_track_def)
  let ?rid = "next_rowid (words_seq st) (map w_id (words st))"
  have s: "step_handler (Start c) st =
      (Inserted c ?rid, st\<lparr>words := words st @ [new_word_row ?rid w (body c) (t_word c)], words_seq := ?rid\<rparr>)"
    by (simp add: insert_word_plain [OF assms(2,3)])
  have "\<forall>r\<in>set (words st). w_id r \<noteq> ?rid"
    using next_rowid_gt_mem [of _ "map w_id (words st)" "words_seq st"] by fastforce
  then show ?thesis using Start by (auto simp: s on_track_def simp del: step_handler.simps)
next
  case (Inserted c' i)
  with assms have [simp]: "c' = c" and row: "new_word_row i w (body c) (t_word c) \<in> set (words st)"
    by (simp_all add: on_track_def)
  from row have "i \<in> w_id ` set (words st)"
    by (metis image_eqI w_id_new_word_row)
  then have s: "step_handler (Inserted c i) st =
      (Finished (Created i),
       st\<lparr>progress := progress st @ [new_progress_row (next_rowid (progress_seq st) (map p_id (progress st))) i (t_progress c)],
          progress_seq := next_rowid (progress_seq st) (map p_id (progress st))\<rparr>)"
    by (simp add: insert_progress_def Let_def)
  show ?thesis using Inserted row by (simp add: s on_track_def del: step_handler.simps)
next
  case (Finished r)
  with assms show ?thesis by simp
qed

lemma stage_le_2: "stage h \<le> 2"
  by (cases h) simp_all

lemma race_on_track:
  assumes "word (body c1) = Str w1" and "plain (body c1)"
    and "word (body c2) = Str w2" and "plain (body c2)"
    and "on_track c1 w1 h1 st" and "on_track c2 w2 h2 st"
    and "\<And>i. rowid_of h1 = Some i \<Longrightarrow> rowid_of h2 \<noteq> Some i"
  shows "\<exists>h1' h2' st'. race ts (h1, h2, st) = (h1', h2', st')
       \<and> on_track c1 w1 h1' st' \<and> on_track c2 w2 h2' st'
       \<and> (\<forall>i. rowid_of h1' = Some i \<longrightarrow> rowid_of h2' \<noteq> Some i)
       \<and> stage h1' = min 2 (stage h1 + count_list ts A)
       \<and> stage h2' = min 2 (stage h2 + count_list ts B)"
  using assms(5-)
proof (induction ts arbitrary: h1 h2 st)
  case Nil
  then show ?case using stage_le_2 [of h1] stage_le_2 [of h2] by auto
next
  case (Cons t ts)
  show ?case
  proof (cases t)
    case A
    let ?h = "fst (step_handler h1 st)" and ?st = "snd (step_handler h1 st)"
    note s = step_on_track [OF Cons.prems(1) assms(1,2)]
    have t1: "on_track c1 w1 ?h ?st" using s by blast
    have t2: "on_track c2 w2 h2 ?st" using s Cons.prems(2) on_track_more_rows by blast
    have d: "rowid_of h2 \<noteq> Some i" if i: "rowid_of ?h = Some i" for i
    proof
      assume j: "rowid_of h2 = Some i"
      from s consider "rowid_of ?h = rowid_of h1"
        | k where "rowid_of ?h = Some k" "\<forall>r\<in>set (words st). w_id r \<noteq> k" by blast
      then show False
      proof cases
        case 1
        with i Cons.prems(3) j show False by simp
      next
        case 2
        with i have "\<forall>r\<in>set (words st). w_id r \<noteq> i" by simp
        moreover from on_track_rowid [OF Cons.prems(2) j]
        have "new_word_row i w2 (body c2) (t_word c2) \<in> set (words st)" .
        ultimately show False by fastforce
      qed
    qed
    from Cons.IH [OF t1 t2 d] obtain h1' h2' st' where
      r: "race ts (?h, h2, ?st) = (h1', h2', st')"
      "on_track c1 w1 h1' st'" "on_track c2 w2 h2' st'"
      "\<forall>i. rowid_of h1' = Some i \<longrightarrow> rowid_of h2' \<noteq> Some i"
      "stage h1' = min 2 (stage ?h + count_list ts A)"
      "stage h2' = min 2 (stage h2 + count_list ts B)"
      by blast
    have "stage ?h = min 2 (Suc (stage h1))" using s by blast
    with r(5) have "stage h1' = min 2 (stage h1 + count_list (t # ts) A)"
      using A by simp
    moreover have "stage h2' = min 2 (stage h2 + count_list (t # ts) B)"
      using r(6) A by simp
    moreover have "race (t # ts) (h1, h2, st) = (h1', h2', st')"
      using r(1) A by simp
    ultimately show ?thesis using r(2-4) by blast
  next
    case B
    let ?h = "fst (step_handler h2 st)" and ?st = "snd (step_handler h2 st)"
    note s = step_on_track [OF Cons.prems(2) assms(3,4)]
    have t2: "on_track c2 w2 ?h ?st" using s by blast
    have t1: "on_track c1 w1 h1 ?st" using s Cons.prems(1) on_track_more_rows by blast
    have d: "rowid_of ?h \<noteq> Some i" if i: "rowid_of h1 = Some i" for i
    proof
      assume j: "rowid_of ?h = Some i"
      from s consider "rowid_of ?h = rowid_of h2"
        | k where "rowid_of ?h = Some k" "\<forall>r\<in>set (words st). w_id r \<noteq> k" by blast
      then show False
      proof cases
        case 1
        with i Cons.prems(3) j show False by simp
      next
        case 2
        with j have "\<forall>r\<in>set (words st). w_id r \<noteq> i" by simp
        moreover from on_track_rowid [OF Cons.prems(1) i]
        have "new_word_row i w1 (body c1) (t_word c1) \<in> set (words st)" .
        ultimately show False by fastforce
      qed
    qed
    from Cons.IH [OF t1 t2 d] obtain h1' h2' st' where
      r: "race ts (h1, ?h, ?st) = (h1', h2', st')"
      "on_track c1 w1 h1' st'" "on_track c2 w2 h2' st'"
      "\<forall>i. rowid_of h1' = Some i \<longrightarrow> rowid_of h2' \<noteq> Some i"
      "stage h1' = min 2 (stage h1 + count_list ts A)"
      "stage h2' = min 2 (stage ?h + count_list ts B)"
      by blast
    have "stage ?h = min 2 (Suc (stage h2))" using s by blast
    with r(6) have "stage h2' = min 2 (stage h2 + count_list (t # ts) B)"
      using B by simp
    moreover have "stage h1' = min 2 (stage h1 + count_list (t # ts) A)"
      using r(5) B by simp
    moreover have "race (t # ts) (h1, h2, st) = (h1', h2', st')"
      using r(1) B by simp
    ultimately show ?thesis using r(2-4) by blast
  qed
qed

subsection \<open>Definitions unfolded when a sample request is run\<close>

lemmas run_defs = request_def just_word_def ubiquitous_def post_words_def insert_word_def
  insert_progress_def next_rowid_def init_store_def bind_params_def row_of_def
  new_word_row_def new_progress_row_def ascii_def is_high_def is_low_def

subsection \<open>Creating and listing\<close>

text \<open>
  C1 (as amended). A request whose surface text is a text and whose fields are plain
  values is accepted; the identifier it is given is larger than, hence different from, the
  identifier of every word already stored; and the new row is in the listing of
  \<^verbatim>\<open>GET /api/words\<close>. When every stored word carries a timestamp strictly earlier than
  the clock reading of the insert, the listing has the new row first, followed by the
  listing as it was before.
\<close>

theorem create_then_list_newest_first:
  assumes "word (body c) = Str w" and "plain (body c)"
  shows "\<exists>rid. fst (post_words c st) = Created rid
           \<and> (\<forall>r\<in>set (words st). w_id r < rid)
           \<and> new_word_row rid w (body c) (t_word c) \<in> set (list_words (snd (post_words c st)))
           \<and> ((\<forall>r\<in>set (words st). w_created_at r < t_word c) \<longrightarrow>
                fst (get_words (snd (post_words c st)))
                  = Words (new_word_row rid w (body c) (t_word c) # list_words st))"
proof -
  let ?rid = "next_rowid (words_seq st) (map w_id (words st))"
  let ?row = "new_word_row ?rid w (body c) (t_word c)"
  have fresh: "\<forall>r\<in>set (words st). w_id r < ?rid"
    by (simp add: next_rowid_gt_mem)
  have ws: "words (snd (post_words c st)) = words st @ [?row]"
    by (simp add: post_words_accept [OF assms] Let_def)
  have mem: "?row \<in> set (list_words (snd (post_words c st)))"
    by (simp add: list_words_def ws)
  have first: "fst (get_words (snd (post_words c st))) = Words (?row # list_words st)"
    if "\<forall>r\<in>set (words st). w_created_at r < t_word c"
  proof -
    have "sort_key (\<lambda>r. - int (w_created_at r)) (words st @ [?row]) = ?row # list_words st"
      unfolding list_words_def using that by (intro sort_key_snoc_least) simp
    then show ?thesis by (simp add: get_words_def list_words_def ws)
  qed
  have "fst (post_words c st) = Created ?rid"
    by (simp add: post_words_accept [OF assms] Let_def)
  with fresh mem first show ?thesis by blast
qed

theorem create_then_list_newest_first_witness:
  "fst (post_words (request ubiquitous 20 20) (snd (post_words (request (just_word (Str (ascii ''cat''))) 10 10) init_store)))
     = Created 2
   \<and> fst (get_words (snd (post_words (request ubiquitous 20 20) (snd (post_words (request (just_word (Str (ascii ''cat''))) 10 10) init_store)))))
     = Words [new_word_row 2 (ascii ''ubiquitous'') ubiquitous 20,
              new_word_row 1 (ascii ''cat'') (just_word (Str (ascii ''cat''))) 10]"
  using create_then_list_newest_first
    [of "request ubiquitous 20 20" "ascii ''ubiquitous''"
        "snd (post_words (request (just_word (Str (ascii ''cat''))) 10 10) init_store)"]
  by (simp add: run_defs plain_def list_words_def)

text \<open>
  C1 as stated does not hold: the listing is ordered by \<^verbatim>\<open>created_at\<close> alone, which has
  a resolution of one second. Two words created within the same second carry the same
  timestamp, and the listing keeps them in the order of the table scan: the older one first.
\<close>

theorem same_second_lists_older_first:
  "fst (post_words (request (just_word (Str (ascii ''dog''))) 10 10)
         (snd (post_words (request (just_word (Str (ascii ''cat''))) 10 10) init_store))) = Created 2
   \<and> fst (get_words (snd (post_words (request (just_word (Str (ascii ''dog''))) 10 10)
         (snd (post_words (request (just_word (Str (ascii ''cat''))) 10 10) init_store)))))
     = Words [new_word_row 1 (ascii ''cat'') (just_word (Str (ascii ''cat''))) 10,
              new_word_row 2 (ascii ''dog'') (just_word (Str (ascii ''dog''))) 10]"
  by (simp add: run_defs get_words_def list_words_def)

text \<open>
  C7. Two requests with the same body of plain values, one after the other: both are
  accepted, the second gets a larger identifier than the first, and the table then holds the
  earlier rows, the row of the first request exactly as the first request left it, and the
  row of the second.
\<close>

theorem duplicate_words_create_separate_rows:
  assumes "word (body c1) = Str w" and "plain (body c1)" and "body c2 = body c1"
  shows "\<exists>i j. fst (post_words c1 st) = Created i
      \<and> fst (post_words c2 (snd (post_words c1 st))) = Created j
      \<and> i < j
      \<and> words (snd (post_words c1 st)) = words st @ [new_word_row i w (body c1) (t_word c1)]
      \<and> words (snd (post_words c2 (snd (post_words c1 st))))
          = words st @ [new_word_row i w (body c1) (t_word c1),
                        new_word_row j w (body c1) (t_word c2)]"
proof -
  let ?i = "next_rowid (words_seq st) (map w_id (words st))"
  let ?st1 = "snd (post_words c1 st)"
  let ?j = "next_rowid (words_seq ?st1) (map w_id (words ?st1))"
  from assms have b2: "word (body c2) = Str w" and p2: "plain (body c2)"
    by simp_all
  have r1: "fst (post_words c1 st) = Created ?i"
    and w1: "words ?st1 = words st @ [new_word_row ?i w (body c1) (t_word c1)]"
    and s1: "words_seq ?st1 = ?i"
    by (simp_all add: post_words_accept [OF assms(1,2)] Let_def)
  have r2: "fst (post_words c2 ?st1) = Created ?j"
    and w2: "words (snd (post_words c2 ?st1)) = words ?st1 @ [new_word_row ?j w (body c2) (t_word c2)]"
    by (simp_all add: post_words_accept [OF b2 p2] Let_def)
  have "?i < ?j" using next_rowid_gt_seq [of "words_seq ?st1"] s1 by simp
  with r1 r2 w1 w2 assms(3) show ?thesis by auto
qed

theorem duplicate_words_create_separate_rows_witness:
  "fst (post_words (request (just_word (Str (ascii ''cat''))) 5 5) init_store) = Created 1
   \<and> fst (post_words (request (just_word (Str (ascii ''cat''))) 9 9)
        (snd (post_words (request (just_word (Str (ascii ''cat''))) 5 5) init_store))) = Created 2
   \<and> words (snd (post_words (request (just_word (Str (ascii ''cat''))) 9 9)
        (snd (post_words (request (just_word (Str (ascii ''cat''))) 5 5) init_store))))
     = [new_word_row 1 (ascii ''cat'') (just_word (Str (ascii ''cat''))) 5,
        new_word_row 2 (ascii ''cat'') (just_word (Str (ascii ''cat''))) 9]"
  using duplicate_words_create_separate_rows
    [of "request (just_word (Str (ascii ''cat''))) 5 5" "ascii ''cat''"
        "request (just_word (Str (ascii ''cat''))) 9 9" init_store]
  by (simp add: run_defs plain_def)

subsection \<open>Rejected requests\<close>

text \<open>
  C10. A request whose surface text is \<^verbatim>\<open>null\<close> or absent: the insert into \<^verbatim>\<open>words\<close>
  fails, the insert into \<^verbatim>\<open>progress\<close> is never reached (the handler answers with the
  error of the first insert), and the handler leaves the store exactly as it found it (no
  row in either table, no counter moved). When the fields of the payload are plain values,
  the failure is the NOT NULL constraint of the column.
\<close>

theorem null_word_leaves_store_unchanged:
  assumes "word (body c) = Null \<or> word (body c) = Undefined"
  shows "(\<exists>e. insert_word (t_word c) (body c) st = Inl e \<and> post_words c st = (Error500 e, st))
       \<and> (plain (body c) \<longrightarrow>
            insert_word (t_word c) (body c) st = Inl SQLITE_CONSTRAINT_NOTNULL
            \<and> post_words c st = (Error500 SQLITE_CONSTRAINT_NOTNULL, st))"
proof -
  from assms have no: "\<not> accepts (body c)" by (rule null_word_not_accepted)
  then obtain e where e: "insert_word (t_word c) (body c) st = Inl e"
    by (cases "t_word c" "body c" st rule: insert_word_cases) simp_all
  then have general: "\<exists>e. insert_word (t_word c) (body c) st = Inl e \<and> post_words c st = (Error500 e, st)"
    by (simp add: post_words_def)
  have specific: "insert_word (t_word c) (body c) st = Inl SQLITE_CONSTRAINT_NOTNULL
      \<and> post_words c st = (Error500 SQLITE_CONSTRAINT_NOTNULL, st)" if "plain (body c)"
  proof -
    from assms have "column (word (body c)) = None" by auto
    with that have "insert_word (t_word c) (body c) st = Inl SQLITE_CONSTRAINT_NOTNULL"
      by (simp add: insert_word_def bind_params_plain)
    then show ?thesis by (simp add: post_words_def)
  qed
  from general specific show ?thesis by blast
qed

theorem null_word_leaves_store_unchanged_witness:
  "post_words \<lparr>body = \<lparr>word = Undefined, context_sentence = Str (ascii ''a cat sat''),
        meaning = Str (ascii ''feline''), phonetic_us = Null, phonetic_uk = Null,
        image_url = Undefined\<rparr>, t_word = 7, t_progress = 7\<rparr> init_store
     = (Error500 SQLITE_CONSTRAINT_NOTNULL, init_store)"
  using null_word_leaves_store_unchanged
    [of "\<lparr>body = \<lparr>word = Undefined, context_sentence = Str (ascii ''a cat sat''),
        meaning = Str (ascii ''feline''), phonetic_us = Null, phonetic_uk = Null,
        image_url = Undefined\<rparr>, t_word = 7, t_progress = 7\<rparr>" init_store]
  by (simp add: plain_def)

text \<open>
  C3 (as amended). A request whose surface text is absent or \<^verbatim>\<open>null\<close> is answered
  with the error of the failed insert (the NOT NULL constraint of the column, or the driver's
  refusal of another field), not with a validation error; \<^verbatim>\<open>words\<close> holds the rows it
  held before, and the listing and the count are what they were.
\<close>

theorem absent_word_is_rejected:
  assumes "word (body c) = Undefined \<or> word (body c) = Null"
  shows "\<exists>e. fst (post_words c st) = Error500 e
           \<and> (e = SQLITE_CONSTRAINT_NOTNULL \<or> e = DRIVER_BIND_ERROR)
           \<and> words (snd (post_words c st)) = words st
           \<and> fst (get_words (snd (post_words c st))) = fst (get_words st)
           \<and> fst (get_stats (snd (post_words c st))) = fst (get_stats st)"
proof -
  from assms have "\<not> accepts (body c)" using null_word_not_accepted by blast
  then obtain e where e: "insert_word (t_word c) (body c) st = Inl e"
    by (cases "t_word c" "body c" st rule: insert_word_cases) simp_all
  then have "post_words c st = (Error500 e, st)" by (simp add: post_words_def)
  with insert_word_error_kinds [OF e] show ?thesis by simp
qed

theorem absent_word_is_rejected_witness:
  "fst (post_words (request (just_word Null) 3 3) init_store) = Error500 SQLITE_CONSTRAINT_NOTNULL
   \<and> words (snd (post_words (request (just_word Null) 3 3) init_store)) = []
   \<and> fst (post_words (request (ubiquitous\<lparr>word := Undefined, meaning := Bool False\<rparr>) 3 3) init_store)
       = Error500 DRIVER_BIND_ERROR"
  using absent_word_is_rejected [of "request (just_word Null) 3 3" init_store]
    absent_word_is_rejected [of "request (ubiquitous\<lparr>word := Undefined, meaning := Bool False\<rparr>) 3 3" init_store]
  by (simp add: run_defs)

text \<open>
  C3 as stated does not hold for the empty string: nothing in the handler or the schema
  looks at the length of the text, so the request is accepted and a word with an empty
  surface text is stored and counted.
\<close>

theorem empty_word_is_stored:
  "fst (post_words (request (just_word (Str [])) 3 3) init_store) = Created 1
   \<and> words (snd (post_words (request (just_word (Str [])) 3 3) init_store))
       = [new_word_row 1 [] (just_word (Str [])) 3]
   \<and> fst (get_stats (snd (post_words (request (just_word (Str [])) 3 3) init_store))) = Stats 1"
  by (simp add: run_defs get_stats_def count_words_def)

subsection \<open>What is stored\<close>

text \<open>
  C6 (as amended). When the surface text is a well-formed text and every other field is a
  well-formed text, absent or \<^verbatim>\<open>null\<close>, the request is accepted and the row that
  \<^verbatim>\<open>GET /api/words\<close> returns for it carries each text exactly as sent and \<^verbatim>\<open>NULL\<close>
  where the field was absent or \<^verbatim>\<open>null\<close>; beyond these it has only the assigned
  identifier and the timestamp of the insert, and it is the only row with that identifier.
  For such a body built by the client's \<^verbatim>\<open>saveWord\<close>, the row holds the fields of the
  client's record unchanged, with \<^verbatim>\<open>context_explanation\<close> under the name
  \<^verbatim>\<open>context_sentence\<close>.
\<close>

theorem created_row_matches_payload:
  assumes "word (body c) = Str w" and "well_formed w"
    and "textual (context_sentence (body c))" and "textual (meaning (body c))"
    and "textual (phonetic_us (body c))" and "textual (phonetic_uk (body c))"
    and "textual (image_url (body c))"
  shows "\<exists>rid. fst (post_words c st) = Created rid
      \<and> filter (\<lambda>r. w_id r = rid) (list_words (snd (post_words c st)))
          = [\<lparr>w_id = rid, w_word = w,
              w_context_sentence = sent (context_sentence (body c)),
              w_meaning = sent (meaning (body c)),
              w_phonetic_us = sent (phonetic_us (body c)),
              w_phonetic_uk = sent (phonetic_uk (body c)),
              w_image_url = sent (image_url (body c)),
              w_created_at = t_word c\<rparr>]
      \<and> (\<forall>wr. body c = saveWord_body wr \<longrightarrow>
           filter (\<lambda>r. w_id r = rid) (list_words (snd (post_words c st)))
          = [\<lparr>w_id = rid, w_word = wr_word wr,
              w_context_sentence = Some (wr_context_explanation wr),
              w_meaning = Some (wr_meaning wr),
              w_phonetic_us = Some (wr_phonetic_us wr),
              w_phonetic_uk = Some (wr_phonetic_uk wr),
              w_image_url = wr_image_url wr,
              w_created_at = t_word c\<rparr>])"
proof -
  let ?rid = "next_rowid (words_seq st) (map w_id (words st))"
  let ?row = "\<lparr>w_id = ?rid, w_word = w,
              w_context_sentence = sent (context_sentence (body c)),
              w_meaning = sent (meaning (body c)),
              w_phonetic_us = sent (phonetic_us (body c)),
              w_phonetic_uk = sent (phonetic_uk (body c)),
              w_image_url = sent (image_url (body c)),
              w_created_at = t_word c\<rparr>"
  have pl: "plain (body c)"
    using assms by (simp add: plain_def textual_scalar)
  have row: "new_word_row ?rid w (body c) (t_word c) = ?row"
    using assms by (simp add: new_word_row_def textual_column stored_text_well_formed)
  have r: "fst (post_words c st) = Created ?rid"
    by (simp add: post_words_accept [OF assms(1) pl] Let_def)
  have w: "words (snd (post_words c st)) = words st @ [?row]"
    by (simp add: post_words_accept [OF assms(1) pl] Let_def row)
  have f: "filter (\<lambda>r. w_id r = ?rid) (list_words (snd (post_words c st))) = [?row]"
    by (simp add: filter_list_words w filter_id_fresh)
  have s: "?row = \<lparr>w_id = ?rid, w_word = wr_word wr,
              w_context_sentence = Some (wr_context_explanation wr),
              w_meaning = Some (wr_meaning wr),
              w_phonetic_us = Some (wr_phonetic_us wr),
              w_phonetic_uk = Some (wr_phonetic_uk wr),
              w_image_url = wr_image_url wr,
              w_created_at = t_word c\<rparr>" if "body c = saveWord_body wr" for wr
    using assms(1) that by (auto simp: saveWord_body_def split: option.splits)
  have "\<forall>wr. body c = saveWord_body wr \<longrightarrow>
           filter (\<lambda>r. w_id r = ?rid) (list_words (snd (post_words c st)))
          = [\<lparr>w_id = ?rid, w_word = wr_word wr,
              w_context_sentence = Some (wr_context_explanation wr),
              w_meaning = Some (wr_meaning wr),
              w_phonetic_us = Some (wr_phonetic_us wr),
              w_phonetic_uk = Some (wr_phonetic_uk wr),
              w_image_url = wr_image_url wr,
              w_created_at = t_word c\<rparr>]"
    using f s by metis
  with r f show ?thesis by blast
qed

theorem created_row_matches_payload_witness:
  "fst (post_words (request ubiquitous 20 21) init_store) = Created 1
   \<and> fst (get_stats (snd (post_words (request ubiquitous 20 21) init_store))) = Stats 1
   \<and> fst (get_words (snd (post_words (request ubiquitous 20 21) init_store)))
      = Words [\<lparr>w_id = 1, w_word = ascii ''ubiquitous'', w_context_sentence = None,
                 w_meaning = Some (ascii ''present everywhere''),
                 w_phonetic_us = Some (ascii ''/ju:bIkwIt@s/''),
                 w_phonetic_uk = None, w_image_url = None, w_created_at = 20\<rparr>]"
  using created_row_matches_payload [of "request ubiquitous 20 21" "ascii ''ubiquitous''" init_store]
  by (simp add: run_defs get_stats_def count_words_def get_words_def list_words_def)

text \<open>
  C6 as stated does not hold for the other values a JSON body can carry, which the handler
  hands to the driver as they are. The request below sends the number \<^verbatim>\<open>123\<close> as its
  surface text, a one-element array as its context sentence and a high surrogate without
  its partner as its meaning. It is accepted, and the listing returns the text
  \<^verbatim>\<open>123.0\<close>, the element of the array, and three U+FFFD.
\<close>

theorem other_json_values_come_back_changed:
  "fst (post_words
         (request \<lparr>word = Num (ascii ''123.0''), context_sentence = Arr [Str (ascii ''a cat'')],
                   meaning = Str [0xD83D], phonetic_us = Undefined, phonetic_uk = Undefined,
                   image_url = Undefined\<rparr> 20 20) init_store) = Created 1
   \<and> fst (get_words (snd (post_words
         (request \<lparr>word = Num (ascii ''123.0''), context_sentence = Arr [Str (ascii ''a cat'')],
                   meaning = Str [0xD83D], phonetic_us = Undefined, phonetic_uk = Undefined,
                   image_url = Undefined\<rparr> 20 20) init_store)))
      = Words [\<lparr>w_id = 1, w_word = ascii ''123.0'',
                 w_context_sentence = Some (ascii ''a cat''),
                 w_meaning = Some [0xFFFD, 0xFFFD, 0xFFFD],
                 w_phonetic_us = None, w_phonetic_uk = None, w_image_url = None,
                 w_created_at = 20\<rparr>]"
  by (simp add: run_defs get_words_def list_words_def)

subsection \<open>Reading\<close>

text \<open>
  C8. \<^verbatim>\<open>GET /api/words\<close> and \<^verbatim>\<open>GET /api/stats\<close> leave the store as it is, and asking
  again, or asking one after the other, gives the same answers.
\<close>

theorem reads_leave_store_unchanged:
  "snd (get_words st) = st
   \<and> fst (get_words (snd (get_words st))) = fst (get_words st)
   \<and> snd (get_stats st) = st
   \<and> fst (get_stats (snd (get_stats st))) = fst (get_stats st)
   \<and> fst (get_words (snd (get_stats st))) = fst (get_words st)
   \<and> fst (get_stats (snd (get_words st))) = fst (get_stats st)"
  by (simp add: get_words_def get_stats_def)

subsection \<open>Identifiers and counts\<close>

text \<open>
  C4. Over any sequence of \<^verbatim>\<open>POST /api/words\<close> requests, from any store: the identifiers
  handed out are strictly increasing in the order of the requests; each is larger than the
  stored counter and than every identifier the table held at the start; the identifiers in
  the table afterwards are those it held followed by those handed out, one row each; the
  rows present at the start are still there, unchanged; and a table built from the empty
  store never holds an identifier twice.
\<close>

theorem identifiers_increase_and_are_not_reused:
  "sorted_wrt (<) (created_ids cs st)
   \<and> (\<forall>i\<in>set (created_ids cs st). words_seq st < i \<and> (\<forall>r\<in>set (words st). w_id r < i))
   \<and> map w_id (words (run cs st)) = map w_id (words st) @ created_ids cs st
   \<and> take (length (words st)) (words (run cs st)) = words st
   \<and> distinct (map w_id (words (run cs init_store)))"
proof -
  have "distinct (created_ids cs init_store)"
    using created_ids_sorted [of cs init_store] by (simp add: strict_sorted_iff)
  then have "distinct (map w_id (words (run cs init_store)))"
    by (simp add: ids_after_run init_store_def)
  then show ?thesis
    using created_ids_sorted created_ids_bounds ids_after_run words_kept_by_run by blast
qed

theorem identifiers_increase_and_are_not_reused_witness:
  "created_ids [request (just_word (Str (ascii ''cat''))) 5 5, request (just_word Undefined) 6 6,
                request (just_word (Str (ascii ''cat''))) 5 5] init_store = [1, 2]
   \<and> map w_id (words (run [request (just_word (Str (ascii ''cat''))) 5 5, request (just_word Undefined) 6 6,
                request (just_word (Str (ascii ''cat''))) 5 5] init_store)) = [1, 2]"
  using identifiers_increase_and_are_not_reused
    [of "[request (just_word (Str (ascii ''cat''))) 5 5, request (just_word Undefined) 6 6,
                request (just_word (Str (ascii ''cat''))) 5 5]" init_store]
  by (simp add: run_defs created_ids_def map_filter_simps)

text \<open>
  C5. \<^verbatim>\<open>GET /api/stats\<close> answers with the number of rows of \<^verbatim>\<open>words\<close>, which is also
  the length of the answer of \<^verbatim>\<open>GET /api/words\<close>. After a sequence of requests on the
  empty store it is the number of requests that were answered with an identifier; if all of
  them carried a surface text and plain values, it is the length of the sequence.
\<close>

theorem stats_counts_words:
  "get_stats st = (Stats (length (words st)), st)
   \<and> (\<exists>ws. fst (get_words st) = Words ws \<and> length ws = length (words st))
   \<and> fst (get_stats (run cs init_store)) = Stats (length (created_ids cs init_store))
   \<and> ((\<forall>c\<in>set cs. plain (body c) \<and> (\<exists>w. word (body c) = Str w)) \<longrightarrow>
        fst (get_stats (run cs init_store)) = Stats (length cs))"
proof -
  have n: "length (words (run cs init_store)) = length (created_ids cs init_store)"
    using arg_cong [OF ids_after_run [of cs init_store], of length]
    by (simp add: init_store_def)
  have "length (created_ids cs init_store) = length cs"
    if "\<forall>c\<in>set cs. plain (body c) \<and> (\<exists>w. word (body c) = Str w)"
  proof (rule created_ids_all_accepted)
    show "\<forall>c\<in>set cs. accepts (body c)" using that accepts_plain by blast
  qed
  with n show ?thesis
    by (simp add: get_stats_def count_words_def get_words_def list_words_def)
qed

theorem stats_counts_words_witness:
  "fst (get_stats (run [request (just_word (Str (ascii ''cat''))) 5 5, request ubiquitous 6 6,
                request (just_word (Str (ascii ''cat''))) 7 8] init_store)) = Stats 3"
proof -
  let ?cs = "[request (just_word (Str (ascii ''cat''))) 5 5, request ubiquitous 6 6,
              request (just_word (Str (ascii ''cat''))) 7 8]"
  have h: "\<forall>c\<in>set ?cs. plain (body c) \<and> (\<exists>w. word (body c) = Str w)"
    by (simp add: request_def just_word_def ubiquitous_def plain_def)
  have "(\<forall>c\<in>set ?cs. plain (body c) \<and> (\<exists>w. word (body c) = Str w)) \<longrightarrow>
        fst (get_stats (run ?cs init_store)) = Stats (length ?cs)"
    using stats_counts_words [of init_store ?cs] by (elim conjE)
  with h have "fst (get_stats (run ?cs init_store)) = Stats (length ?cs)"
    by (rule rev_mp)
  then show ?thesis by simp
qed

subsection \<open>Progress rows\<close>

text \<open>
  C2 (as amended). In the store built from the empty one by a sequence of
  \<^verbatim>\<open>POST /api/words\<close> requests there is one word for each request that was taken, in
  the order of the requests. The word of the \<open>k\<close>-th of them has exactly one row of
  \<^verbatim>\<open>progress\<close> referencing it: its status is \<^verbatim>\<open>new\<close>, it has never been reviewed,
  and its \<^verbatim>\<open>next_review\<close> is not \<^verbatim>\<open>NULL\<close> but the clock reading of the second insert
  of that same request, while \<^verbatim>\<open>created_at\<close> is the reading of its first insert. So
  \<^verbatim>\<open>next_review\<close> equals \<^verbatim>\<open>created_at\<close> exactly when the two inserts of the word's own
  request read the same second.
\<close>

theorem every_word_has_one_new_progress_row:
  "length (words (run cs init_store)) = length (accepted cs)
   \<and> (\<forall>k<length (accepted cs).
        w_id (words (run cs init_store) ! k) = Suc k
      \<and> w_created_at (words (run cs init_store) ! k) = t_word (accepted cs ! k)
      \<and> progress_of (run cs init_store) (Suc k)
          = [\<lparr>p_id = Suc k, p_word_id = Some (Suc k), p_status = Some ''new'',
              p_last_reviewed = None, p_next_review = Some (t_progress (accepted cs ! k))\<rparr>]
      \<and> (map p_next_review (progress_of (run cs init_store) (Suc k))
            = [Some (w_created_at (words (run cs init_store) ! k))]
          \<longleftrightarrow> t_progress (accepted cs ! k) = t_word (accepted cs ! k)))"
proof -
  let ?st = "run cs init_store"
  let ?n = "length (accepted cs)"
  note l = lockstep [of cs]
  have "map w_created_at (words ?st) = map t_word (accepted cs)"
    using l by blast
  then have "length (map w_created_at (words ?st)) = length (map t_word (accepted cs))"
    by (rule arg_cong)
  then have len: "length (words ?st) = ?n"
    by (simp only: length_map)
  have per: "w_id (words ?st ! k) = Suc k
      \<and> w_created_at (words ?st ! k) = t_word (accepted cs ! k)
      \<and> progress_of ?st (Suc k)
          = [\<lparr>p_id = Suc k, p_word_id = Some (Suc k), p_status = Some ''new'',
              p_last_reviewed = None, p_next_review = Some (t_progress (accepted cs ! k))\<rparr>]
      \<and> (map p_next_review (progress_of ?st (Suc k)) = [Some (w_created_at (words ?st ! k))]
          \<longleftrightarrow> t_progress (accepted cs ! k) = t_word (accepted cs ! k))"
    if k: "k < ?n" for k
  proof -
    have "w_id (words ?st ! k) = map w_id (words ?st) ! k"
      using k len by simp
    also have "\<dots> = map fst (enumerate (Suc 0) (accepted cs)) ! k" using l by (simp only:)
    also have "\<dots> = Suc k" using k by (simp add: nth_enumerate_eq del: map_fst_enumerate)
    finally have i: "w_id (words ?st ! k) = Suc k" .
    have "w_created_at (words ?st ! k) = map w_created_at (words ?st) ! k"
      using k len by simp
    also have "\<dots> = t_word (accepted cs ! k)" using l k by simp
    finally have t: "w_created_at (words ?st ! k) = t_word (accepted cs ! k)" .
    have p: "progress_of ?st (Suc k) = [new_progress_row (Suc k) (Suc k) (t_progress (accepted cs ! k))]"
      unfolding progress_of_def using l filter_progress_enumerate [OF k] by simp
    from i t p show ?thesis by (auto simp: new_progress_row_def)
  qed
  from len per show ?thesis by blast
qed

theorem every_word_has_one_new_progress_row_witness:
  "words (run [request (just_word (Str (ascii ''cat''))) 5 6, request (just_word Null) 7 7,
               request ubiquitous 8 8] init_store)
     = [new_word_row 1 (ascii ''cat'') (just_word (Str (ascii ''cat''))) 5,
        new_word_row 2 (ascii ''ubiquitous'') ubiquitous 8]
   \<and> progress_of (run [request (just_word (Str (ascii ''cat''))) 5 6, request (just_word Null) 7 7,
               request ubiquitous 8 8] init_store) 1
     = [\<lparr>p_id = 1, p_word_id = Some 1, p_status = Some ''new'', p_last_reviewed = None,
         p_next_review = Some 6\<rparr>]
   \<and> progress_of (run [request (just_word (Str (ascii ''cat''))) 5 6, request (just_word Null) 7 7,
               request ubiquitous 8 8] init_store) 2
     = [\<lparr>p_id = 2, p_word_id = Some 2, p_status = Some ''new'', p_last_reviewed = None,
         p_next_review = Some 8\<rparr>]"
  using every_word_has_one_new_progress_row
    [of "[request (just_word (Str (ascii ''cat''))) 5 6, request (just_word Null) 7 7,
          request ubiquitous 8 8]"]
  by (simp add: run_defs progress_of_def accepted_def accepts_def)

text \<open>
  C2 as stated does not hold: \<^verbatim>\<open>created_at\<close> is the clock as the first statement reads
  it and \<^verbatim>\<open>next_review\<close> the clock as the second statement reads it. When the second
  changes between the two statements, the two columns differ.
\<close>

theorem clock_tick_between_inserts:
  "fst (post_words (request ubiquitous 10 11) init_store) = Created 1
   \<and> map w_created_at (words (snd (post_words (request ubiquitous 10 11) init_store))) = [10]
   \<and> map p_next_review (progress_of (snd (post_words (request ubiquitous 10 11) init_store)) 1)
       = [Some 11]"
  by (simp add: run_defs progress_of_def)

subsection \<open>Overlapping requests\<close>

text \<open>
  C9. Two \<^verbatim>\<open>POST /api/words\<close> requests, each with a surface text and plain values,
  whose statements are interleaved in any order: once each handler has had its two turns,
  both have answered with an identifier, the two identifiers differ, and the listing of
  \<^verbatim>\<open>GET /api/words\<close> holds the row of each. The schedules include the two in which one
  handler runs to its end before the other starts, which are the only ones the
  single-threaded server produces.
\<close>

theorem racing_creates_get_distinct_ids:
  assumes "word (body c1) = Str w1" and "plain (body c1)"
    and "word (body c2) = Str w2" and "plain (body c2)"
    and "2 \<le> count_list ts A" and "2 \<le> count_list ts B"
  shows "\<exists>i j st'. race ts (Start c1, Start c2, st) = (Finished (Created i), Finished (Created j), st')
       \<and> i \<noteq> j
       \<and> new_word_row i w1 (body c1) (t_word c1) \<in> set (list_words st')
       \<and> new_word_row j w2 (body c2) (t_word c2) \<in> set (list_words st')"
proof -
  have "on_track c1 w1 (Start c1) st" "on_track c2 w2 (Start c2) st"
    by (simp_all add: on_track_def)
  from race_on_track [OF assms(1-4) this, of ts]
  obtain h1' h2' st' where r: "race ts (Start c1, Start c2, st) = (h1', h2', st')"
    "on_track c1 w1 h1' st'" "on_track c2 w2 h2' st'"
    "\<forall>i. rowid_of h1' = Some i \<longrightarrow> rowid_of h2' \<noteq> Some i"
    "stage h1' = min 2 (count_list ts A)" "stage h2' = min 2 (count_list ts B)"
    by auto
  from r(5,6) assms(5,6) have "stage h1' = 2" "stage h2' = 2" by simp_all
  with on_track_finished r(2,3) obtain i j where
    ij: "h1' = Finished (Created i)" "new_word_row i w1 (body c1) (t_word c1) \<in> set (words st')"
      "h2' = Finished (Created j)" "new_word_row j w2 (body c2) (t_word c2) \<in> set (words st')"
    by blast
  with r(4) have "i \<noteq> j" by auto
  with r(1) ij show ?thesis by (simp add: list_words_def)
qed

theorem racing_creates_get_distinct_ids_witness:
  "race [A, B, B, A] (Start (request (just_word (Str (ascii ''cat''))) 5 6),
                      Start (request (just_word (Str (ascii ''dog''))) 5 5), init_store)
     = (Finished (Created 1), Finished (Created 2),
        \<lparr>words = [new_word_row 1 (ascii ''cat'') (just_word (Str (ascii ''cat''))) 5,
                  new_word_row 2 (ascii ''dog'') (just_word (Str (ascii ''dog''))) 5],
          progress = [new_progress_row 1 2 5, new_progress_row 2 1 6],
          words_seq = 2, progress_seq = 2\<rparr>)"
  using racing_creates_get_distinct_ids
    [of "request (just_word (Str (ascii ''cat''))) 5 6" "ascii ''cat''"
        "request (just_word (Str (ascii ''dog''))) 5 5" "ascii ''dog''" "[A, B, B, A]" init_store]
  by (simp add: run_defs plain_def)

end
